theory Spec2Isabelle
  imports Complex_Main
begin

section \<open>The fetch wrapper (src/examples/fetch.ts)\<close>

text \<open>
  A JavaScript promise settles with a value or with a rejection reason; the reason is of
  type \<^verbatim>\<open>unknown\<close>. The outcome of a promise is a sum: \<open>Inl\<close> the rejection
  reason, \<open>Inr\<close> the value. An Effect, once run to completion without interruption of
  its fiber, exits with a value, with a typed failure (the error channel), or with a
  defect (\<^verbatim>\<open>Cause.die\<close>).
\<close>

datatype ('e, 'd, 'a) exit = Success 'a | Failure 'e | Die 'd

text \<open>\<^verbatim>\<open>Data.tagged<T>(tag)\<close> builds the constructor \<^verbatim>\<open>(args) => ({...args, _tag})\<close>;
  both interfaces of fetch.ts have the single field \<^verbatim>\<open>error\<close>.\<close>

record 'u tagged_error =
  tag :: string
  error :: 'u

definition Data_tagged :: "string \<Rightarrow> 'u \<Rightarrow> 'u tagged_error" where
  "Data_tagged t err = \<lparr>tag = t, error = err\<rparr>"

definition FetchError :: "'u \<Rightarrow> 'u tagged_error" where
  "FetchError = Data_tagged ''FetchError''"

definition JsonBodyError :: "'u \<Rightarrow> 'u tagged_error" where
  "JsonBodyError = Data_tagged ''JsonBodyError''"

text \<open>
  \<^verbatim>\<open>Effect.tryCatchPromise(evaluate, onReject)\<close> and its interruptible variant belong
  to the @effect/io library: the promise built by \<open>evaluate\<close> is awaited, its value is
  the success of the effect, and a rejection reason is mapped through \<open>onReject\<close> into
  the error channel. The interruptible variant hands \<open>evaluate\<close> an abort signal, which
  is not aborted in a run that is not interrupted.
\<close>

definition tryCatchPromise :: "(unit \<Rightarrow> 'u + 'a) \<Rightarrow> ('u \<Rightarrow> 'e) \<Rightarrow> ('e, 'd, 'a) exit" where
  "tryCatchPromise evaluate onReject =
     (case evaluate () of Inr a \<Rightarrow> Success a | Inl err \<Rightarrow> Failure (onReject err))"

definition tryCatchPromiseInterrupt :: "(bool \<Rightarrow> 'u + 'a) \<Rightarrow> ('u \<Rightarrow> 'e) \<Rightarrow> ('e, 'd, 'a) exit" where
  "tryCatchPromiseInterrupt evaluate onReject =
     (case evaluate False of Inr a \<Rightarrow> Success a | Inl err \<Rightarrow> Failure (onReject err))"

text \<open>A \<^verbatim>\<open>Response\<close>, as far as fetch.ts uses it: the outcome of its \<^verbatim>\<open>json()\<close> promise.\<close>

record 'u response =
  json :: "'u + 'u"

text \<open>The global \<^verbatim>\<open>fetch\<close> is the environment: for a request \<open>info\<close> and the
  \<^verbatim>\<open>RequestInit\<close> (the caller's \<open>init\<close> with the signal added) it gives the outcome of
  the promise it returns.\<close>

type_synonym ('i, 'u) fetch = "string \<Rightarrow> 'i option \<times> bool \<Rightarrow> 'u + 'u response"

definition request :: "('i, 'u) fetch \<Rightarrow> string \<Rightarrow> 'i option \<Rightarrow> ('u tagged_error, 'd, 'u response) exit" where
  "request fetch info init =
     tryCatchPromiseInterrupt (\<lambda>signal. fetch info (init, signal)) (\<lambda>error. FetchError error)"

definition jsonBody :: "'u response \<Rightarrow> ('u tagged_error, 'd, 'u) exit" where
  "jsonBody input = tryCatchPromise (\<lambda>_. json input) (\<lambda>error. JsonBodyError error)"

section \<open>The two lead repositories (src/examples/leads.ts and its orDie variant)\<close>

definition flatMap :: "('a \<Rightarrow> ('e, 'd, 'b) exit) \<Rightarrow> ('e, 'd, 'a) exit \<Rightarrow> ('e, 'd, 'b) exit" where
  "flatMap f self = (case self of Success a \<Rightarrow> f a | Failure e \<Rightarrow> Failure e | Die d \<Rightarrow> Die d)"

text \<open>\<^verbatim>\<open>Effect.orDie\<close> moves every typed failure into the defect channel.\<close>

definition orDie :: "('e, 'e, 'a) exit \<Rightarrow> ('n, 'e, 'a) exit" where
  "orDie self = (case self of Success a \<Rightarrow> Success a | Failure e \<Rightarrow> Die e | Die d \<Rightarrow> Die d)"

definition getLead :: "('i, 'u) fetch \<Rightarrow> string \<Rightarrow> ('u tagged_error, 'd, 'u) exit" where
  "getLead fetch ident = flatMap jsonBody (request fetch (''/v1/leads/'' @ ident) None)"

definition getLead_orDie :: "('i, 'u) fetch \<Rightarrow> string \<Rightarrow> ('n, 'u tagged_error, 'u) exit" where
  "getLead_orDie fetch ident =
     orDie (flatMap jsonBody (request fetch (''/v1/leads/'' @ ident) None))"

section \<open>The hand-written retry loop (slides.md, \<^verbatim>\<open>callWithRetry\<close>)\<close>

text \<open>
  \<^verbatim>\<open>RetryOptions\<close>: every field is optional, and so is the options object itself.
  The numbers are taken to be integers.
\<close>

record retry_options =
  limit :: "int option"
  cap :: "int option"
  base :: "int option"
  exponent :: "int option"

text \<open>\<^verbatim>\<open>opts?.field ?? dflt\<close>: the default stands in when the object or the field is absent.\<close>

definition nullish :: "('o \<Rightarrow> 'v option) \<Rightarrow> 'o option \<Rightarrow> 'v \<Rightarrow> 'v" where
  "nullish field opts dflt =
     (case opts of None \<Rightarrow> dflt | Some ob \<Rightarrow> (case field ob of None \<Rightarrow> dflt | Some v \<Rightarrow> v))"

text \<open>The argument of \<^verbatim>\<open>wait\<close>:
  \<^verbatim>\<open>Math.min((opts?.base ?? 2) ** depth * (opts?.exponent ?? 10), opts?.cap ?? 2000)\<close>.\<close>

definition wait_ms :: "retry_options option \<Rightarrow> nat \<Rightarrow> int" where
  "wait_ms opts depth =
     min (nullish base opts 2 ^ depth * nullish exponent opts 10) (nullish cap opts 2000)"

text \<open>
  \<open>fn\<close> is an effectful thunk: \<open>fn k\<close> is the outcome of its \<open>k\<close>-th invocation
  (\<open>Inl\<close> the value thrown, \<open>Inr\<close> the value returned), and \<open>k\<close> counts the invocations
  made so far. The result pairs the outcome of the promise with the waits made, in order.
\<close>

function callWithRetry ::
  "(nat \<Rightarrow> 'e + 'a) \<Rightarrow> retry_options option \<Rightarrow> nat \<Rightarrow> nat \<Rightarrow> ('e + 'a) \<times> int list" where
  "callWithRetry fn opts depth k =
     (case fn k of
        Inr a \<Rightarrow> (Inr a, [])
      | Inl e \<Rightarrow>
          if int depth > nullish limit opts 10 then (Inl e, [])
          else (case callWithRetry fn opts (depth + 1) (k + 1) of
                  (r, ws) \<Rightarrow> (r, wait_ms opts depth # ws)))"
  by pat_completeness auto
termination
  by (relation "measure (\<lambda>(fn, opts, depth, k). nat (nullish limit opts 10 + 1 - int depth))") auto

declare callWithRetry.simps [simp del]

text \<open>The invocation of \<open>fn\<close> at which a call that started at \<open>depth\<close> gives up, when
  every invocation fails: the first one made at a depth above the limit.\<close>

definition halting_call :: "retry_options option \<Rightarrow> nat \<Rightarrow> nat \<Rightarrow> nat" where
  "halting_call opts depth k = k + nat (nullish limit opts 10 + 1 - int depth)"

section \<open>The Schedule algebra and the retrying operation\<close>

text \<open>
  Modelled from the spec: the Schedule combinators \<^verbatim>\<open>exponential\<close>, \<^verbatim>\<open>spaced\<close>,
  \<^verbatim>\<open>upTo\<close>, \<^verbatim>\<open>either\<close> and \<^verbatim>\<open>whileInput\<close> that slides.md composes into
  \<^verbatim>\<open>retrySchedule\<close> and hands to \<^verbatim>\<open>Effect.retry\<close> belong to the @effect/io library;
  the sources only call them. The spec describes a Schedule as a closed tree of five node
  kinds read by one recursive evaluator, a pure mapping from an input and a state to a
  decision. Durations are in milliseconds.
\<close>

datatype 'x schedule =
    Exponential real real
  | Spaced real
  | UpTo "'x schedule" real
  | Either "'x schedule" "'x schedule"
  | WhileInput "'x schedule" "'x \<Rightarrow> bool"

text \<open>
  Modelled from the spec: the ScheduleState, opaque in the spec. It follows the shape of
  the Schedule: a recurrence count for a primitive, the cumulative delay around the state
  of the Schedule that \<^verbatim>\<open>upTo\<close> wraps, a pair of independent sub-states for
  \<^verbatim>\<open>either\<close>.
\<close>

datatype sstate = Count nat | Elapsed real sstate | Both sstate sstate

datatype decision = Halt | Continue real sstate

fun initial :: "'x schedule \<Rightarrow> sstate" where
  "initial (Exponential b f) = Count 0"
| "initial (Spaced i) = Count 0"
| "initial (UpTo s m) = Elapsed 0 (initial s)"
| "initial (Either s1 s2) = Both (initial s1) (initial s2)"
| "initial (WhileInput s p) = initial s"

text \<open>
  Modelled from the spec: the evaluator of section 4.1. \<^verbatim>\<open>exponential\<close> always continues
  with delay \<open>base * factor ^ n\<close>; \<^verbatim>\<open>spaced\<close> continues with its interval; \<^verbatim>\<open>upTo\<close>
  halts once the cumulative delay would exceed its bound; \<^verbatim>\<open>either\<close> steps both
  members and halts only if both do, a halted member keeping its sub-state;
  \<^verbatim>\<open>whileInput\<close> tests its predicate first. A state of the wrong shape, which
  \<open>initial\<close> never produces, halts.
\<close>

fun decide :: "'x schedule \<Rightarrow> 'x \<Rightarrow> sstate \<Rightarrow> decision" where
  "decide (Exponential b f) x (Count n) = Continue (b * f ^ n) (Count (n + 1))"
| "decide (Spaced i) x (Count n) = Continue i (Count (n + 1))"
| "decide (UpTo s m) x (Elapsed el st) =
     (case decide s x st of
        Halt \<Rightarrow> Halt
      | Continue d st' \<Rightarrow> if el + d > m then Halt else Continue d (Elapsed (el + d) st'))"
| "decide (Either s1 s2) x (Both st1 st2) =
     (case (decide s1 x st1, decide s2 x st2) of
        (Halt, Halt) \<Rightarrow> Halt
      | (Continue d1 st1', Halt) \<Rightarrow> Continue d1 (Both st1' st2)
      | (Halt, Continue d2 st2') \<Rightarrow> Continue d2 (Both st1 st2')
      | (Continue d1 st1', Continue d2 st2') \<Rightarrow> Continue (min d1 d2) (Both st1' st2'))"
| "decide (WhileInput s p) x st = (if p x then decide s x st else Halt)"
| "decide _ _ _ = Halt"

text \<open>
  Modelled from the spec: the ScheduleDriver of section 4.2, which owns one state,
  initialised on the first step. The evaluator does not read the elapsed time.
\<close>

record 'x driver =
  schedule :: "'x schedule"
  state :: "sstate option"

definition step :: "'x driver \<Rightarrow> 'x \<Rightarrow> real \<Rightarrow> decision \<times> 'x driver" where
  "step drv x elapsed =
     (let st = (case state drv of None \<Rightarrow> initial (schedule drv) | Some st \<Rightarrow> st) in
      case decide (schedule drv) x st of
        Halt \<Rightarrow> (Halt, drv\<lparr>state := Some st\<rparr>)
      | Continue d st' \<Rightarrow> (Continue d st', drv\<lparr>state := Some st'\<rparr>))"

text \<open>
  Modelled from the spec: the driver run over a sequence of inputs, as the retry
  determinism property of section 8 observes it: the delays it proposes, one per input,
  up to its first Halt.
\<close>

fun delays :: "'x driver \<Rightarrow> 'x list \<Rightarrow> real list" where
  "delays drv [] = []"
| "delays drv (x # xs) =
     (case step drv x 0 of
        (Halt, _) \<Rightarrow> []
      | (Continue d _, drv') \<Rightarrow> d # delays drv' xs)"

text \<open>
  Modelled from the spec: the RetryingOperation of section 4.4 (\<^verbatim>\<open>Effect.retry\<close> in
  slides.md, library code). The wrapped operation is a script, the outcome of each of its
  invocations in order; the token is read at the suspension points: \<open>token 0\<close> before
  the first invocation, \<open>token n\<close> during the wait after the \<open>n\<close>-th invocation. The
  result carries the number of invocations made; a script that ends before the operation
  is settled gives \<open>None\<close>.
\<close>

datatype ('e, 'o) outcome = Value 'o | OpError 'e | Cancelled

fun attempts ::
  "('e \<Rightarrow> bool) \<Rightarrow> (nat \<Rightarrow> bool) \<Rightarrow> ('e + 'o) list \<Rightarrow> 'e driver \<Rightarrow> real \<Rightarrow> nat \<Rightarrow>
     (('e, 'o) outcome \<times> nat) option" where
  "attempts shouldRetry token [] drv elapsed n = None"
| "attempts shouldRetry token (r # script) drv elapsed n =
     (case r of
        Inr v \<Rightarrow> Some (Value v, Suc n)
      | Inl e \<Rightarrow>
          if \<not> shouldRetry e then Some (OpError e, Suc n)
          else (case step drv e elapsed of
                  (Halt, _) \<Rightarrow> Some (OpError e, Suc n)
                | (Continue d _, drv') \<Rightarrow>
                    if token (Suc n) then Some (Cancelled, Suc n)
                    else attempts shouldRetry token script drv' (elapsed + d) (Suc n)))"

definition retryingOperation ::
  "('e + 'o) list \<Rightarrow> 'e schedule \<Rightarrow> ('e \<Rightarrow> bool) \<Rightarrow> (nat \<Rightarrow> bool) \<Rightarrow>
     (('e, 'o) outcome \<times> nat) option" where
  "retryingOperation script sched shouldRetry token =
     (if token 0 then Some (Cancelled, 0)
      else attempts shouldRetry token script \<lparr>schedule = sched, state = None\<rparr> 0 0)"

text \<open>The schedule that slides.md builds from the library's combinators:
  \<^verbatim>\<open>pipe(exponential(millis(10), 2), either(spaced(seconds(1))), upTo(seconds(30)))\<close>.\<close>

definition retrySchedule :: "'x schedule" where
  "retrySchedule = UpTo (Either (Exponential 10 2) (Spaced 1000)) 30000"

text \<open>Modelled from the spec: the errors of the scenario of section 8, which carry a
  kind.\<close>

record op_error =
  kind :: string

section \<open>The bounded executor (slides.md, \<^verbatim>\<open>getLeads\<close> with a limit)\<close>

text \<open>
  A task is an id with its index in the caller's sequence, as built by
  \<^verbatim>\<open>ids.map((id, index) => [id, index])\<close>.
\<close>

type_synonym task = "string \<times> nat"

text \<open>
  A JavaScript array: the elements that are present, by index, and the length. Writing
  at an index at or beyond the length extends the array and leaves holes.
\<close>

record 'r js_array =
  elems :: "nat \<Rightarrow> 'r option"
  len :: nat

definition js_empty :: "'r js_array" where
  "js_empty = \<lparr>elems = (\<lambda>_. None), len = 0\<rparr>"

definition js_set :: "'r js_array \<Rightarrow> nat \<Rightarrow> 'r \<Rightarrow> 'r js_array" where
  "js_set a i v = \<lparr>elems = (elems a)(i \<mapsto> v), len = max (len a) (i + 1)\<rparr>"

text \<open>The array as a sequence, a hole being \<open>None\<close>.\<close>

definition js_list :: "'r js_array \<Rightarrow> 'r option list" where
  "js_list a = map (elems a) [0..<len a]"

text \<open>
  The promise that \<open>getLeads\<close> returns. It is resolved with the array \<open>results\<close>
  itself, so the value of a fulfilled promise is the \<open>results\<close> of the state.
\<close>

datatype 'e promise = Unsettled | Fulfilled | Rejected 'e

text \<open>
  The variables the closures of \<open>getLeads\<close> share. \<open>inflight\<close> is not a variable of
  the program: it lists the calls of \<^verbatim>\<open>getLead\<close> that have been made and whose promise
  has not settled yet, in the order in which they were made.
\<close>

record ('e, 'r) executor =
  remaining :: "task list"
  results :: "'r js_array"
  pending :: int
  inflight :: "task list"
  promise :: "'e promise"

text \<open>\<^verbatim>\<open>resolve\<close> and \<^verbatim>\<open>reject\<close> settle the promise once; later calls do nothing.\<close>

definition resolve :: "('e, 'r, 'z) executor_scheme \<Rightarrow> ('e, 'r, 'z) executor_scheme" where
  "resolve s = (if promise s = Unsettled then s\<lparr>promise := Fulfilled\<rparr> else s)"

definition reject :: "'e \<Rightarrow> ('e, 'r, 'z) executor_scheme \<Rightarrow> ('e, 'r, 'z) executor_scheme" where
  "reject err s = (if promise s = Unsettled then s\<lparr>promise := Rejected err\<rparr> else s)"

definition fetchRemaining :: "('e, 'r) executor \<Rightarrow> ('e, 'r) executor" where
  "fetchRemaining s =
     (if length (remaining s) > 0 then
        (case last (remaining s) of
           (remainingToFetchId, remainingToFetchIdx) \<Rightarrow>
             s\<lparr>remaining := butlast (remaining s),
               pending := pending s + 1,
               inflight := inflight s @ [(remainingToFetchId, remainingToFetchIdx)]\<rparr>)
      else if pending s = 0 then resolve s
      else s)"

text \<open>
  The environment: \<open>calls ident idx\<close> is the outcome of the call \<^verbatim>\<open>getLead(ident)\<close>
  made for the task of index \<open>idx\<close>, \<open>Inr\<close> the value it resolves with and \<open>Inl\<close> the
  reason it rejects with. \<open>settle calls s k\<close> is the reaction to the \<open>k\<close>-th call in
  flight settling: the \<^verbatim>\<open>then\<close> handler on a value, the \<^verbatim>\<open>catch\<close> handler on a
  rejection. An event that names no call in flight changes nothing.
\<close>

definition settle ::
  "(string \<Rightarrow> nat \<Rightarrow> 'e + 'r) \<Rightarrow> ('e, 'r) executor \<Rightarrow> nat \<Rightarrow> ('e, 'r) executor" where
  "settle calls s k =
     (if k < length (inflight s) then
        (case inflight s ! k of
           (ident, idx) \<Rightarrow>
             (let s' = s\<lparr>inflight := take k (inflight s) @ drop (Suc k) (inflight s)\<rparr> in
              case calls ident idx of
                Inr res \<Rightarrow>
                  fetchRemaining
                    (s'\<lparr>results := js_set (results s') idx res, pending := pending s' - 1\<rparr>)
              | Inl err \<Rightarrow> reject err s'))
      else s)"

text \<open>\<^verbatim>\<open>for (let i = 0; i < limit; i++) fetchRemaining()\<close>, the limit an integer.\<close>

function for_loop :: "int \<Rightarrow> int \<Rightarrow> ('e, 'r) executor \<Rightarrow> ('e, 'r) executor" where
  "for_loop i lmt s = (if i < lmt then for_loop (i + 1) lmt (fetchRemaining s) else s)"
  by pat_completeness auto
termination
  by (relation "measure (\<lambda>(i, lmt, s). nat (lmt - i))") auto

declare for_loop.simps [simp del]

text \<open>A parameter with a default value, as in \<^verbatim>\<open>limit = 5\<close>.\<close>

definition param_default :: "'a option \<Rightarrow> 'a \<Rightarrow> 'a" where
  "param_default v dflt = (case v of None \<Rightarrow> dflt | Some x \<Rightarrow> x)"

definition start :: "string list \<Rightarrow> ('e, 'r) executor" where
  "start ids =
     \<lparr>remaining = rev (zip ids [0..<length ids]), results = js_empty, pending = 0,
      inflight = [], promise = Unsettled\<rparr>"

text \<open>The state in which \<open>getLeads\<close> returns its promise.\<close>

definition getLeads :: "string list \<Rightarrow> int option \<Rightarrow> ('e, 'r) executor" where
  "getLeads ids lmt = for_loop 0 (param_default lmt 5) (start ids)"

text \<open>An interleaving is the sequence in which the calls in flight settle.\<close>

definition run ::
  "(string \<Rightarrow> nat \<Rightarrow> 'e + 'r) \<Rightarrow> string list \<Rightarrow> int option \<Rightarrow> nat list \<Rightarrow> ('e, 'r) executor" where
  "run calls ids lmt evs = foldl (settle calls) (getLeads ids lmt) evs"

text \<open>Two invariants of the executor, used in the proofs below.\<close>

definition bounded :: "int \<Rightarrow> ('e, 'r, 'z) executor_scheme \<Rightarrow> bool" where
  "bounded K s \<longleftrightarrow> int (length (inflight s)) \<le> pending s \<and> pending s \<le> K"

definition task_of :: "string list \<Rightarrow> nat \<Rightarrow> task" where
  "task_of ids i = (ids ! i, i)"

definition placed ::
  "(string \<Rightarrow> nat \<Rightarrow> 'e + 'r) \<Rightarrow> string list \<Rightarrow> ('e, 'r) executor \<Rightarrow> nat \<Rightarrow> nat list \<Rightarrow> bool" where
  "placed calls ids s d js \<longleftrightarrow>
     d \<le> length ids \<and>
     remaining s = rev (map (task_of ids) [d..<length ids]) \<and>
     inflight s = map (task_of ids) js \<and> distinct js \<and> set js \<subseteq> {..<d} \<and>
     set js \<inter> dom (elems (results s)) = {} \<and>
     dom (elems (results s)) \<subseteq> {..<d} \<and>
     (\<forall>i r. elems (results s) i = Some r \<longrightarrow> calls (ids ! i) i = Inr r) \<and>
     dom (elems (results s)) \<subseteq> {..<len (results s)} \<and>
     len (results s) \<le> d \<and>
     pending s = int d - int (card (dom (elems (results s)))) \<and>
     (promise s = Fulfilled \<longrightarrow> d = length ids \<and> pending s = 0)"

section \<open>The executor with an abort signal (slides.md, \<^verbatim>\<open>getLeads\<close> with options)\<close>

text \<open>
  An \<^verbatim>\<open>AbortSignal\<close> of the platform: its \<^verbatim>\<open>aborted\<close> flag and the listeners of
  its \<^verbatim>\<open>abort\<close> event. The only listener this program adds is
  \<^verbatim>\<open>() => controller.abort()\<close>, so the listeners are counted. Adding a listener never
  calls it; the event is dispatched once, when the signal goes from not aborted to
  aborted.
\<close>

record abort_signal =
  aborted :: bool
  listeners :: nat

definition addEventListener_abort :: "abort_signal \<Rightarrow> abort_signal" where
  "addEventListener_abort sg = sg\<lparr>listeners := listeners sg + 1\<rparr>"

text \<open>\<^verbatim>\<open>GetLeadsOptions\<close>. Its field \<^verbatim>\<open>limit\<close> is \<open>leads_limit\<close> here, the name
  being taken by \<^verbatim>\<open>RetryOptions\<close>; of the caller's signal, the options hold the state
  it is in when \<open>getLeads\<close> is called.\<close>

record leads_options =
  leads_limit :: "int option"
  signal :: "bool option"

text \<open>
  The state of the second \<open>getLeads\<close>: the variables of the first, whether
  \<^verbatim>\<open>controller.signal\<close> is aborted, and the caller's signal if one was passed.
\<close>

record ('e, 'r) executor_signal = "('e, 'r) executor" +
  controller :: bool
  opts_signal :: "abort_signal option"

definition controller_abort :: "('e, 'r) executor_signal \<Rightarrow> ('e, 'r) executor_signal" where
  "controller_abort s = s\<lparr>controller := True\<rparr>"

text \<open>The owner of the caller's signal aborts it.\<close>

definition signal_abort :: "('e, 'r) executor_signal \<Rightarrow> ('e, 'r) executor_signal" where
  "signal_abort s =
     (case opts_signal s of
        None \<Rightarrow> s
      | Some sg \<Rightarrow>
          if aborted sg then s
          else (let s' = s\<lparr>opts_signal := Some (sg\<lparr>aborted := True\<rparr>)\<rparr> in
                if listeners sg > 0 then controller_abort s' else s'))"

definition fetchRemaining_signal :: "('e, 'r) executor_signal \<Rightarrow> ('e, 'r) executor_signal" where
  "fetchRemaining_signal s =
     (if length (remaining s) > 0 then
        (case last (remaining s) of
           (remainingToFetchId, remainingToFetchIdx) \<Rightarrow>
             s\<lparr>remaining := butlast (remaining s),
               pending := pending s + 1,
               inflight := inflight s @ [(remainingToFetchId, remainingToFetchIdx)]\<rparr>)
      else if pending s = 0 then resolve s
      else s)"

text \<open>
  The environment: \<open>calls ident idx a\<close> is the outcome of the call
  \<^verbatim>\<open>getLead(ident, {signal: controller.signal})\<close> made for the task of index \<open>idx\<close>,
  where \<open>a\<close> tells whether the signal is aborted by the time the handler of the call
  runs. A \<^verbatim>\<open>fetch\<close> that is pending when its signal is aborted rejects; a call whose
  promise had resolved before still has its \<^verbatim>\<open>then\<close> handler run afterwards. The
  \<^verbatim>\<open>catch\<close> handler aborts the controller, then rejects.
\<close>

definition settle_signal ::
  "(string \<Rightarrow> nat \<Rightarrow> bool \<Rightarrow> 'e + 'r) \<Rightarrow> ('e, 'r) executor_signal \<Rightarrow> nat \<Rightarrow>
     ('e, 'r) executor_signal" where
  "settle_signal calls s k =
     (if k < length (inflight s) then
        (case inflight s ! k of
           (ident, idx) \<Rightarrow>
             (let s' = s\<lparr>inflight := take k (inflight s) @ drop (Suc k) (inflight s)\<rparr> in
              case calls ident idx (controller s) of
                Inr res \<Rightarrow>
                  fetchRemaining_signal
                    (s'\<lparr>results := js_set (results s') idx res, pending := pending s' - 1\<rparr>)
              | Inl err \<Rightarrow> reject err (controller_abort s')))
      else s)"

function for_loop_signal ::
  "int \<Rightarrow> int \<Rightarrow> ('e, 'r) executor_signal \<Rightarrow> ('e, 'r) executor_signal" where
  "for_loop_signal i lmt s =
     (if i < lmt then for_loop_signal (i + 1) lmt (fetchRemaining_signal s) else s)"
  by pat_completeness auto
termination
  by (relation "measure (\<lambda>(i, lmt, s). nat (lmt - i))") auto

declare for_loop_signal.simps [simp del]

definition start_signal :: "string list \<Rightarrow> leads_options option \<Rightarrow> ('e, 'r) executor_signal" where
  "start_signal ids opts =
     \<lparr>remaining = rev (zip ids [0..<length ids]), results = js_empty, pending = 0,
      inflight = [], promise = Unsettled,
      controller = False,
      opts_signal =
        (case opts of
           None \<Rightarrow> None
         | Some ob \<Rightarrow>
             (case signal ob of
                None \<Rightarrow> None
              | Some a \<Rightarrow> Some (addEventListener_abort \<lparr>aborted = a, listeners = 0\<rparr>)))\<rparr>"

definition getLeads_signal ::
  "string list \<Rightarrow> leads_options option \<Rightarrow> ('e, 'r) executor_signal" where
  "getLeads_signal ids opts = for_loop_signal 0 (nullish leads_limit opts 5) (start_signal ids opts)"

text \<open>What happens after \<open>getLeads\<close> has returned: a call in flight settles, or the
  caller's signal is aborted.\<close>

datatype event = Settle nat | AbortSignal

definition step_signal ::
  "(string \<Rightarrow> nat \<Rightarrow> bool \<Rightarrow> 'e + 'r) \<Rightarrow> ('e, 'r) executor_signal \<Rightarrow> event \<Rightarrow>
     ('e, 'r) executor_signal" where
  "step_signal calls s ev = (case ev of Settle k \<Rightarrow> settle_signal calls s k | AbortSignal \<Rightarrow> signal_abort s)"

definition run_signal ::
  "(string \<Rightarrow> nat \<Rightarrow> bool \<Rightarrow> 'e + 'r) \<Rightarrow> string list \<Rightarrow> leads_options option \<Rightarrow> event list \<Rightarrow>
     ('e, 'r) executor_signal" where
  "run_signal calls ids opts evs = foldl (step_signal calls) (getLeads_signal ids opts) evs"

text \<open>An invariant of the second executor: a fulfilled promise leaves nothing in flight
  and nothing to start.\<close>

definition quiescent :: "('e, 'r) executor_signal \<Rightarrow> bool" where
  "quiescent s \<longleftrightarrow>
     (promise s = Fulfilled \<longrightarrow> inflight s = [] \<and> remaining s = []) \<and>
     (promise s = Unsettled \<longrightarrow> pending s = int (length (inflight s)))"

text \<open>The caller's signal is linked to the controller: its listener is registered, and
  the controller is aborted if the signal is.\<close>

definition linked :: "('e, 'r) executor_signal \<Rightarrow> bool" where
  "linked s \<longleftrightarrow>
     (case opts_signal s of
        None \<Rightarrow> False
      | Some sg \<Rightarrow> 0 < listeners sg \<and> (aborted sg \<longrightarrow> controller s))"

section \<open>Properties of the fetch wrapper\<close>

lemma request_cases:
  "request fetch info init =
     (case fetch info (init, False) of
        Inr r \<Rightarrow> Success r
      | Inl err \<Rightarrow> Failure \<lparr>tag = ''FetchError'', error = err\<rparr>)"
  by (simp add: request_def tryCatchPromiseInterrupt_def FetchError_def Data_tagged_def
      split: sum.splits)

lemma jsonBody_cases:
  "jsonBody input =
     (case json input of
        Inr v \<Rightarrow> Success v
      | Inl err \<Rightarrow> Failure \<lparr>tag = ''JsonBodyError'', error = err\<rparr>)"
  by (simp add: jsonBody_def tryCatchPromise_def JsonBodyError_def Data_tagged_def
      split: sum.splits)

lemma getLead_cases:
  "getLead fetch ident =
     (case fetch (''/v1/leads/'' @ ident) (None, False) of
        Inl err \<Rightarrow> Failure \<lparr>tag = ''FetchError'', error = err\<rparr>
      | Inr r \<Rightarrow>
          (case json r of
             Inl err \<Rightarrow> Failure \<lparr>tag = ''JsonBodyError'', error = err\<rparr>
           | Inr v \<Rightarrow> Success v))"
  by (simp add: getLead_def flatMap_def request_cases jsonBody_cases split: sum.splits)

lemma getLead_orDie_cases:
  "getLead_orDie fetch ident =
     (case fetch (''/v1/leads/'' @ ident) (None, False) of
        Inl err \<Rightarrow> Die \<lparr>tag = ''FetchError'', error = err\<rparr>
      | Inr r \<Rightarrow>
          (case json r of
             Inl err \<Rightarrow> Die \<lparr>tag = ''JsonBodyError'', error = err\<rparr>
           | Inr v \<Rightarrow> Success v))"
  by (simp add: getLead_orDie_def orDie_def flatMap_def request_cases jsonBody_cases
      split: sum.splits)

text \<open>
  C9. When the promise of \<^verbatim>\<open>fetch\<close> rejects with \<open>err\<close>, \<open>request\<close> fails with exactly
  the tagged value \<open>FetchError {error: err}\<close>, and when the promise of \<^verbatim>\<open>input.json()\<close>
  rejects with \<open>err\<close>, \<open>jsonBody\<close> fails with \<open>JsonBodyError {error: err}\<close>. Conversely
  every failure of the two wrappers is such a tagged value carrying the rejection
  reason: nothing else reaches their error channels, and neither wrapper dies.
\<close>

theorem wrappers_fail_with_tagged_errors:
  fixes fetch :: "('i, 'u) fetch" and input :: "'u response"
  shows "(fetch info (init, False) = Inl err \<longrightarrow>
            (request fetch info init :: ('u tagged_error, 'd, 'u response) exit)
              = Failure (FetchError err) \<and> tag (FetchError err) = ''FetchError'')
       \<and> (json input = Inl err \<longrightarrow>
            (jsonBody input :: ('u tagged_error, 'd, 'u) exit)
              = Failure (JsonBodyError err) \<and> tag (JsonBodyError err) = ''JsonBodyError'')
       \<and> ((request fetch info init :: ('u tagged_error, 'd, 'u response) exit) = Failure e \<longrightarrow>
            e = FetchError (error e) \<and> fetch info (init, False) = Inl (error e))
       \<and> ((jsonBody input :: ('u tagged_error, 'd, 'u) exit) = Failure e' \<longrightarrow>
            e' = JsonBodyError (error e') \<and> json input = Inl (error e'))
       \<and> (request fetch info init :: ('u tagged_error, 'd, 'u response) exit) \<noteq> Die d
       \<and> (jsonBody input :: ('u tagged_error, 'd, 'u) exit) \<noteq> Die d"
  by (auto simp: request_cases jsonBody_cases FetchError_def JsonBodyError_def Data_tagged_def
      split: sum.splits)

theorem wrappers_fail_with_tagged_errors_witness:
  "((\<lambda>info opts. Inl ''ECONNRESET'') :: (unit, string) fetch) ''/v1/leads/7'' (None, False)
       = Inl ''ECONNRESET''
   \<and> (request ((\<lambda>info opts. Inl ''ECONNRESET'') :: (unit, string) fetch) ''/v1/leads/7'' None
        :: (string tagged_error, unit, string response) exit)
       = Failure \<lparr>tag = ''FetchError'', error = ''ECONNRESET''\<rparr>
   \<and> json \<lparr>json = Inl ''bad json''\<rparr> = (Inl ''bad json'' :: string + string)
   \<and> (jsonBody \<lparr>json = Inl ''bad json''\<rparr> :: (string tagged_error, unit, string) exit)
       = Failure \<lparr>tag = ''JsonBodyError'', error = ''bad json''\<rparr>"
  using wrappers_fail_with_tagged_errors
    [where fetch = "(\<lambda>info opts. Inl ''ECONNRESET'') :: (unit, string) fetch" and info = "''/v1/leads/7''"
       and init = "None :: unit option" and err = "''ECONNRESET''"
       and input = "\<lparr>json = Inl ''ECONNRESET''\<rparr>"
       and e = "\<lparr>tag = ''FetchError'', error = ''ECONNRESET''\<rparr>"
       and e' = "\<lparr>tag = ''JsonBodyError'', error = ''ECONNRESET''\<rparr>"
       and d = "()"]
  by (simp add: jsonBody_cases FetchError_def Data_tagged_def)

text \<open>
  C10. The orDie variant of \<open>getLead\<close> never exits with a typed failure: every
  \<open>FetchError\<close> or \<open>JsonBodyError\<close> that the plain \<open>getLead\<close> of leads.ts fails with is a
  defect of the orDie variant, which succeeds exactly when the plain one does; the plain
  \<open>getLead\<close> does expose both kinds of error in its error channel.
\<close>

theorem getLead_orDie_never_fails:
  fixes fetch :: "('i, 'u) fetch"
  shows "(getLead_orDie fetch ident :: ('n, 'u tagged_error, 'u) exit) \<noteq> Failure e
       \<and> ((getLead fetch ident :: ('u tagged_error, 'u tagged_error, 'u) exit) = Failure e' \<longrightarrow>
            (getLead_orDie fetch ident :: ('n, 'u tagged_error, 'u) exit) = Die e'
            \<and> (tag e' = ''FetchError'' \<or> tag e' = ''JsonBodyError''))
       \<and> ((getLead fetch ident :: ('u tagged_error, 'u tagged_error, 'u) exit) = Success v \<longleftrightarrow>
            (getLead_orDie fetch ident :: ('n, 'u tagged_error, 'u) exit) = Success v)
       \<and> (getLead (\<lambda>info opts. Inl err) ident :: ('u tagged_error, 'u tagged_error, 'u) exit)
            = Failure (FetchError err)
       \<and> (getLead (\<lambda>info opts. Inr \<lparr>json = Inl err\<rparr>) ident
            :: ('u tagged_error, 'u tagged_error, 'u) exit) = Failure (JsonBodyError err)"
  by (auto simp: getLead_cases getLead_orDie_cases FetchError_def JsonBodyError_def
      Data_tagged_def split: sum.splits)

theorem getLead_orDie_never_fails_witness:
  "(getLead ((\<lambda>info opts. Inr \<lparr>json = Inl ''bad json''\<rparr>) :: (unit, string) fetch) ''7''
      :: (string tagged_error, string tagged_error, string) exit)
     = Failure \<lparr>tag = ''JsonBodyError'', error = ''bad json''\<rparr>
   \<and> (getLead_orDie ((\<lambda>info opts. Inr \<lparr>json = Inl ''bad json''\<rparr>) :: (unit, string) fetch) ''7''
      :: (unit, string tagged_error, string) exit)
     = Die \<lparr>tag = ''JsonBodyError'', error = ''bad json''\<rparr>"
  using getLead_orDie_never_fails
    [where fetch = "(\<lambda>info opts. Inr \<lparr>json = Inl ''bad json''\<rparr>) :: (unit, string) fetch"
       and ident = "''7''" and e' = "\<lparr>tag = ''JsonBodyError'', error = ''bad json''\<rparr>"
       and e = "()" and v = "''x''" and err = "''x''"]
  by (simp add: getLead_cases)

section \<open>Properties of the hand-written retry loop\<close>

lemma callWithRetry_success:
  "fn k = Inr a \<Longrightarrow> callWithRetry fn opts depth k = (Inr a, [])"
  by (subst callWithRetry.simps) simp

lemma callWithRetry_give_up:
  "fn k = Inl e \<Longrightarrow> int depth > nullish limit opts 10 \<Longrightarrow>
     callWithRetry fn opts depth k = (Inl e, [])"
  by (subst callWithRetry.simps) simp

lemma callWithRetry_again:
  "fn k = Inl e \<Longrightarrow> \<not> int depth > nullish limit opts 10 \<Longrightarrow>
     callWithRetry fn opts depth k =
       (fst (callWithRetry fn opts (depth + 1) (k + 1)),
        wait_ms opts depth # snd (callWithRetry fn opts (depth + 1) (k + 1)))"
  by (subst callWithRetry.simps) (simp split: prod.splits)

text \<open>
  C4. \<open>callWithRetry\<close> rejects with \<open>e\<close> exactly when every invocation of \<open>fn\<close> up to
  the one at which the retry budget is exhausted has failed and that last invocation
  threw \<open>e\<close>: the terminal error is the value thrown by the last attempt itself, unchanged,
  and no other error is ever produced.
\<close>

theorem callWithRetry_terminal_error:
  "fst (callWithRetry fn opts depth k) = Inl e \<longleftrightarrow>
     (\<forall>j. k \<le> j \<and> j < halting_call opts depth k \<longrightarrow> isl (fn j)) \<and>
     fn (halting_call opts depth k) = Inl e"
proof (induction fn opts depth k rule: callWithRetry.induct)
  case (1 fn opts depth k)
  show ?case
  proof (cases "fn k")
    case (Inr a)
    have "k < halting_call opts depth k \<or> halting_call opts depth k = k"
      by (auto simp: halting_call_def)
    with Inr show ?thesis
      by (auto simp: callWithRetry_success)
  next
    case (Inl e0)
    show ?thesis
    proof (cases "int depth > nullish limit opts 10")
      case True
      then have "halting_call opts depth k = k"
        by (simp add: halting_call_def)
      with Inl True show ?thesis
        by (auto simp: callWithRetry_give_up)
    next
      case False
      then have h: "halting_call opts depth k = halting_call opts (depth + 1) (k + 1)"
        by (simp add: halting_call_def nat_diff_distrib)
      have ih: "fst (callWithRetry fn opts (depth + 1) (k + 1)) = Inl e \<longleftrightarrow>
        (\<forall>j. k + 1 \<le> j \<and> j < halting_call opts (depth + 1) (k + 1) \<longrightarrow> isl (fn j)) \<and>
        fn (halting_call opts (depth + 1) (k + 1)) = Inl e"
        using "1.IH"[OF Inl False] .
      have "fst (callWithRetry fn opts depth k) = fst (callWithRetry fn opts (depth + 1) (k + 1))"
        using Inl False by (simp add: callWithRetry_again)
      moreover have "(\<forall>j. k \<le> j \<and> j < halting_call opts depth k \<longrightarrow> isl (fn j)) \<longleftrightarrow>
         (\<forall>j. k + 1 \<le> j \<and> j < halting_call opts (depth + 1) (k + 1) \<longrightarrow> isl (fn j))"
        unfolding h using Inl
        by (metis Suc_eq_plus1 Suc_leI le_eq_less_or_eq isl_def Suc_leD)
      ultimately show ?thesis using ih h by simp
    qed
  qed
qed

theorem callWithRetry_terminal_error_witness:
  "halting_call (Some \<lparr>limit = Some 2, cap = None, base = None, exponent = None\<rparr>) 0 0 = 3
   \<and> fst (callWithRetry (\<lambda>k. if k = 3 then Inl ''ETIMEDOUT'' else Inl ''ECONNRESET'')
        (Some \<lparr>limit = Some 2, cap = None, base = None, exponent = None\<rparr>) 0 0)
       = (Inl ''ETIMEDOUT'' :: string + unit)"
proof -
  have h: "halting_call (Some \<lparr>limit = Some 2, cap = None, base = None, exponent = None\<rparr>) 0 0 = 3"
    by (simp add: halting_call_def nullish_def)
  show ?thesis
    using callWithRetry_terminal_error
      [of "\<lambda>k. if k = 3 then Inl ''ETIMEDOUT'' else (Inl ''ECONNRESET'' :: string + unit)"
          "Some \<lparr>limit = Some 2, cap = None, base = None, exponent = None\<rparr>" 0 0 "''ETIMEDOUT''"]
    by (simp add: h)
qed

lemma callWithRetry_total_budget:
  "callWithRetry (\<lambda>k. Inl k) None 0 0
     = (Inl 11 :: nat + unit, [10, 20, 40, 80, 160, 320, 640, 1280, 2000, 2000, 2000])"
  by (simp add: callWithRetry.simps nullish_def wait_ms_def)

section \<open>Properties of the Schedule algebra\<close>

lemma delays_exponential_from:
  "delays \<lparr>schedule = Exponential b f, state = Some (Count n)\<rparr> xs
     = map (\<lambda>i. b * f ^ i) [n ..< n + length xs]"
proof (induction xs arbitrary: n)
  case Nil
  show ?case by simp
next
  case (Cons x xs)
  have "[n..<n + length (x # xs)] = n # [Suc n..<Suc n + length xs]"
    by (simp add: upt_rec)
  then show ?case
    using Cons.IH[of "Suc n"] by (simp add: step_def)
qed

lemma delays_exponential:
  "delays \<lparr>schedule = Exponential b f, state = None\<rparr> xs = map (\<lambda>i. b * f ^ i) [0 ..< length xs]"
proof (cases xs)
  case Nil
  then show ?thesis by simp
next
  case (Cons x xs')
  have "[0..<length (x # xs')] = 0 # [Suc 0..<Suc 0 + length xs']"
    by (simp add: upt_rec)
  then show ?thesis
    using delays_exponential_from[of b f "Suc 0" xs'] Cons by (simp add: step_def)
qed

text \<open>
  C5. One step of \<open>either s1 s2\<close> steps both members on their own sub-states. It halts
  exactly when both members halt. When only one member continues, its delay and its new
  sub-state are taken and the halted member keeps its sub-state; when both continue, the
  delay is the smaller of the two.
\<close>

theorem either_decision:
  "(decide (Either s1 s2) x (Both st1 st2) = Halt \<longleftrightarrow>
      decide s1 x st1 = Halt \<and> decide s2 x st2 = Halt)
   \<and> (decide s1 x st1 = Continue d1 st1' \<and> decide s2 x st2 = Continue d2 st2' \<longrightarrow>
        decide (Either s1 s2) x (Both st1 st2) = Continue (min d1 d2) (Both st1' st2'))
   \<and> (decide s1 x st1 = Continue d1 st1' \<and> decide s2 x st2 = Halt \<longrightarrow>
        decide (Either s1 s2) x (Both st1 st2) = Continue d1 (Both st1' st2))
   \<and> (decide s1 x st1 = Halt \<and> decide s2 x st2 = Continue d2 st2' \<longrightarrow>
        decide (Either s1 s2) x (Both st1 st2) = Continue d2 (Both st1 st2'))"
  by (auto split: decision.splits)

theorem either_decision_witness:
  "decide (Exponential 10 2) () (Count 8) = Continue 2560 (Count 9)
   \<and> decide (Spaced 1000) () (Count 8) = Continue 1000 (Count 9)
   \<and> decide (Either (Exponential 10 2) (Spaced 1000)) () (Both (Count 8) (Count 8))
       = Continue 1000 (Both (Count 9) (Count 9))
   \<and> decide (Either (WhileInput (Spaced 5) (\<lambda>_. False)) (Spaced 1000)) () (Both (Count 0) (Count 0))
       = Continue 1000 (Both (Count 0) (Count 1))"
  using either_decision
      [of "Exponential 10 2" "Spaced 1000" "()" "Count 8" "Count 8" 2560 "Count 9" 1000 "Count 9"]
    either_decision
      [of "WhileInput (Spaced 5) (\<lambda>_. False)" "Spaced 1000" "()" "Count 0" "Count 0"
          0 "Count 0" 1000 "Count 1"]
  by simp

text \<open>
  C6. At recurrence count \<open>n\<close> the decision of \<open>exponential base factor\<close> is to continue
  with delay \<open>base * factor ^ n\<close> and count \<open>n + 1\<close>, for every input; it never halts:
  a driver started on it proposes a delay for every input of any sequence, the \<open>i\<close>-th
  being \<open>base * factor ^ i\<close>.
\<close>

theorem exponential_decision:
  "decide (Exponential b f) x (Count n) = Continue (b * f ^ n) (Count (n + 1))
   \<and> initial (Exponential b f) = Count 0
   \<and> delays \<lparr>schedule = Exponential b f, state = None\<rparr> xs
       = map (\<lambda>i. b * f ^ i) [0 ..< length xs]"
  by (simp add: delays_exponential)

text \<open>
  C7. When the predicate rejects the input, \<open>whileInput schedule predicate\<close> halts,
  whatever the inner schedule and the state are. With the predicate
  \<^verbatim>\<open>e.kind != "Fatal"\<close>, an operation whose first invocation fails with a Transient
  error, after which the inner schedule allows a retry, and whose second invocation fails
  with a Fatal error is invoked exactly twice, and the result is the Fatal error,
  whatever further invocations would have done.
\<close>

theorem whileInput_halts:
  "(\<not> p x \<longrightarrow> decide (WhileInput s p) x st = Halt)
   \<and> (kind e1 = ''Transient'' \<and> kind e2 = ''Fatal'' \<and> decide s' e1 (initial s') = Continue d st'
        \<and> \<not> token 0 \<and> \<not> token 1 \<longrightarrow>
        retryingOperation (Inl e1 # Inl e2 # rest) (WhileInput s' (\<lambda>e. kind e \<noteq> ''Fatal''))
            (\<lambda>_. True) token
          = Some (OpError e2, 2))"
  by (simp add: retryingOperation_def step_def)

theorem whileInput_halts_witness:
  "\<not> (\<lambda>e. kind e \<noteq> ''Fatal'') \<lparr>kind = ''Fatal''\<rparr>
   \<and> decide (WhileInput (retrySchedule :: op_error schedule) (\<lambda>e. kind e \<noteq> ''Fatal''))
        \<lparr>kind = ''Fatal''\<rparr> (initial (retrySchedule :: op_error schedule)) = Halt
   \<and> decide (retrySchedule :: op_error schedule) \<lparr>kind = ''Transient''\<rparr> (initial retrySchedule)
        = Continue 10 (Elapsed 10 (Both (Count 1) (Count 1)))
   \<and> retryingOperation
        [Inl \<lparr>kind = ''Transient''\<rparr>, Inl \<lparr>kind = ''Fatal''\<rparr>, (Inr ''lead'' :: op_error + string)]
        (WhileInput retrySchedule (\<lambda>e. kind e \<noteq> ''Fatal'')) (\<lambda>_. True) (\<lambda>_. False)
       = Some (OpError \<lparr>kind = ''Fatal''\<rparr>, 2)"
  using whileInput_halts
    [of "\<lambda>e. kind e \<noteq> ''Fatal''" "\<lparr>kind = ''Fatal''\<rparr>" "retrySchedule :: op_error schedule"
        "initial (retrySchedule :: op_error schedule)"
        "\<lparr>kind = ''Transient''\<rparr>" "\<lparr>kind = ''Fatal''\<rparr>" retrySchedule 10
        "Elapsed 10 (Both (Count 1) (Count 1))" "\<lambda>_. False" "[Inr ''lead'']"]
  by (simp add: retrySchedule_def)

lemma retrySchedule_delays:
  "delays \<lparr>schedule = (retrySchedule :: unit schedule), state = None\<rparr> (replicate 9 ())
     = [10, 20, 40, 80, 160, 320, 640, 1000, 1000]"
  by (simp add: retrySchedule_def step_def eval_nat_numeral)

lemma wait_ms_exponential:
  "decide (Exponential (real_of_int (nullish exponent opts 10)) (real_of_int (nullish base opts 2)))
      x (Count n) = Continue d st \<Longrightarrow>
   real_of_int (wait_ms opts n) = min d (real_of_int (nullish cap opts 2000))"
  by (auto simp: wait_ms_def of_int_min mult.commute)

section \<open>Properties of the bounded executor\<close>

lemma settle_out_of_range: "\<not> k < length (inflight s) \<Longrightarrow> settle calls s k = s"
  by (simp add: settle_def)

lemma settle_failure:
  "k < length (inflight s) \<Longrightarrow> inflight s ! k = (ident, idx) \<Longrightarrow> calls ident idx = Inl err \<Longrightarrow>
     settle calls s k = reject err (s\<lparr>inflight := take k (inflight s) @ drop (Suc k) (inflight s)\<rparr>)"
  by (simp add: settle_def)

lemma settle_success:
  "k < length (inflight s) \<Longrightarrow> inflight s ! k = (ident, idx) \<Longrightarrow> calls ident idx = Inr res \<Longrightarrow>
     settle calls s k =
       fetchRemaining (s\<lparr>inflight := take k (inflight s) @ drop (Suc k) (inflight s),
                         results := js_set (results s) idx res, pending := pending s - 1\<rparr>)"
  by (simp add: settle_def)

lemma fetchRemaining_inflight:
  "int (length (inflight s)) \<le> pending s \<Longrightarrow>
   int (length (inflight (fetchRemaining s))) \<le> pending (fetchRemaining s)
   \<and> pending (fetchRemaining s) \<le> pending s + 1"
  by (auto simp: fetchRemaining_def resolve_def split: prod.splits)

lemma for_loop_bounded:
  "int (length (inflight s)) \<le> pending s \<Longrightarrow> pending s \<le> i \<Longrightarrow> i \<le> lmt \<Longrightarrow>
     bounded lmt (for_loop i lmt s)"
proof (induction i lmt s rule: for_loop.induct)
  case (1 i lmt s)
  show ?case
  proof (cases "i < lmt")
    case True
    have "bounded lmt (for_loop (i + 1) lmt (fetchRemaining s))"
      using fetchRemaining_inflight[OF "1.prems"(1)] "1.prems" True
      by (intro "1.IH") auto
    then show ?thesis using True by (subst for_loop.simps) simp
  next
    case False
    then show ?thesis using "1.prems" by (subst for_loop.simps) (simp add: bounded_def)
  qed
qed

lemma settle_bounded:
  assumes b: "bounded K s"
  shows "bounded K (settle calls s k)"
proof (cases "k < length (inflight s)")
  case False
  then show ?thesis using b by (simp add: settle_out_of_range)
next
  case True
  obtain ident idx where t: "inflight s ! k = (ident, idx)" by (cases "inflight s ! k")
  have l: "int (length (take k (inflight s) @ drop (Suc k) (inflight s))) = int (length (inflight s)) - 1"
    using True by auto
  show ?thesis
  proof (cases "calls ident idx")
    case (Inl err)
    show ?thesis using b l
      by (simp add: settle_failure[where calls = calls, OF True t Inl] reject_def bounded_def)
  next
    case (Inr res)
    let ?s'' = "s\<lparr>inflight := take k (inflight s) @ drop (Suc k) (inflight s),
                         results := js_set (results s) idx res, pending := pending s - 1\<rparr>"
    have "int (length (inflight ?s'')) \<le> pending ?s''"
      using b l by (simp add: bounded_def)
    from fetchRemaining_inflight[OF this]
    have "bounded K (fetchRemaining ?s'')"
      using b by (simp add: bounded_def)
    then show ?thesis by (simp add: settle_success[where calls = calls, OF True t Inr])
  qed
qed

lemma run_bounded:
  assumes "0 \<le> param_default lmt 5"
  shows "bounded (param_default lmt 5) (run calls ids lmt evs)"
proof (induction evs rule: rev_induct)
  case Nil
  show ?case unfolding run_def getLeads_def using assms
    by (simp add: for_loop_bounded start_def)
next
  case (snoc k evs)
  then show ?case by (simp add: run_def settle_bounded)
qed

lemma zip_tasks: "zip ids [0..<length ids] = map (task_of ids) [0..<length ids]"
  by (rule nth_equalityI) (auto simp: task_of_def)

lemma start_placed: "placed calls ids (start ids) 0 []"
  by (simp add: placed_def start_def zip_tasks js_empty_def)

lemma fetchRemaining_placed:
  assumes "placed calls ids s d js"
  shows "\<exists>d' js'. placed calls ids (fetchRemaining s) d' js'"
proof (cases "d < length ids")
  case True
  then have r: "remaining s = rev (map (task_of ids) [Suc d..<length ids]) @ [task_of ids d]"
    using assms by (simp add: placed_def upt_conv_Cons)
  have nf: "promise s \<noteq> Fulfilled" using assms True by (auto simp: placed_def)
  have f: "fetchRemaining s = s\<lparr>remaining := rev (map (task_of ids) [Suc d..<length ids]),
               pending := pending s + 1, inflight := inflight s @ [task_of ids d]\<rparr>"
    by (simp add: fetchRemaining_def r task_of_def)
  have "placed calls ids (fetchRemaining s) (Suc d) (js @ [d])"
    unfolding f using assms True nf
    by (auto simp: placed_def lessThan_Suc)
  then show ?thesis by blast
next
  case False
  then have d: "d = length ids" and r: "remaining s = []" using assms by (auto simp: placed_def)
  have "placed calls ids (fetchRemaining s) d js"
    using assms d r by (auto simp: fetchRemaining_def resolve_def placed_def)
  then show ?thesis by blast
qed

lemma for_loop_placed:
  "\<exists>d js. placed calls ids s d js \<Longrightarrow> \<exists>d js. placed calls ids (for_loop i lmt s) d js"
proof (induction i lmt s rule: for_loop.induct)
  case (1 i lmt s)
  show ?case
  proof (cases "i < lmt")
    case True
    from "1.prems" obtain d js where "placed calls ids s d js" by blast
    from fetchRemaining_placed[OF this] "1.IH"[OF True]
    show ?thesis using True by (subst for_loop.simps) simp
  next
    case False
    then show ?thesis using "1.prems" by (subst for_loop.simps) simp
  qed
qed

lemma settle_placed:
  assumes p: "placed calls ids s d js"
  shows "\<exists>d' js'. placed calls ids (settle calls s k) d' js'"
proof (cases "k < length (inflight s)")
  case False
  then show ?thesis using p by (auto simp: settle_out_of_range)
next
  case True
  then have kl: "k < length js" using p by (simp add: placed_def)
  define j where "j = js ! k"
  have t: "inflight s ! k = (ids ! j, j)"
    using p kl by (simp add: placed_def j_def task_of_def)
  have jin: "j \<in> set js" using kl by (simp add: j_def)
  let ?js = "take k js @ drop (Suc k) js"
  have infl: "take k (inflight s) @ drop (Suc k) (inflight s) = map (task_of ids) ?js"
    using p by (simp add: placed_def take_map drop_map)
  have js: "js = take k js @ j # drop (Suc k) js"
    using kl by (simp add: j_def id_take_nth_drop)
  have dj: "distinct ?js" "set ?js \<subseteq> set js" "j \<notin> set ?js"
  proof -
    have "distinct (take k js @ j # drop (Suc k) js)" using p js by (simp add: placed_def)
    then show "distinct ?js" "j \<notin> set ?js" by auto
    show "set ?js \<subseteq> set js" by (metis js set_append set_subset_Cons Un_mono subset_refl)
  qed
  show ?thesis
  proof (cases "calls (ids ! j) j")
    case (Inl err)
    have "placed calls ids (settle calls s k) d ?js"
      unfolding settle_failure[where calls = calls, OF True t Inl] using p dj infl
      by (auto simp: placed_def reject_def)
    then show ?thesis by blast
  next
    case (Inr res)
    let ?s'' = "s\<lparr>inflight := take k (inflight s) @ drop (Suc k) (inflight s),
                         results := js_set (results s) j res, pending := pending s - 1\<rparr>"
    have jd: "j < d" and jnd: "j \<notin> dom (elems (results s))"
      using p jin by (auto simp: placed_def)
    have fin: "finite (dom (elems (results s)))"
      using p by (auto simp: placed_def intro: finite_subset)
    have dom': "dom (elems (results ?s'')) = insert j (dom (elems (results s)))"
      by (simp add: js_set_def)
    have card': "card (dom (elems (results ?s''))) = Suc (card (dom (elems (results s))))"
      unfolding dom' using fin jnd by simp
    have cardle: "card (dom (elems (results ?s''))) \<le> d"
    proof -
      have "dom (elems (results ?s'')) \<subseteq> {..<d}"
        unfolding dom' using p jd by (auto simp: placed_def)
      then have "card (dom (elems (results ?s''))) \<le> card {..<d}"
        by (intro card_mono) auto
      then show ?thesis by simp
    qed
    have nf: "promise s \<noteq> Fulfilled"
    proof
      assume "promise s = Fulfilled"
      then have "pending s = 0" using p by (simp add: placed_def)
      then have "card (dom (elems (results s))) = d" using p by (simp add: placed_def)
      then show False using card' cardle by simp
    qed
    have "placed calls ids ?s'' d ?js"
      unfolding placed_def
    proof (intro conjI)
      show "pending ?s'' = int d - int (card (dom (elems (results ?s''))))"
        unfolding card' using p by (simp add: placed_def)
      show "set ?js \<inter> dom (elems (results ?s'')) = {}"
        unfolding dom' using p dj by (auto simp: placed_def)
      show "\<forall>i r. elems (results ?s'') i = Some r \<longrightarrow> calls (ids ! i) i = Inr r"
        using p Inr by (auto simp: placed_def js_set_def)
      show "dom (elems (results ?s'')) \<subseteq> {..<len (results ?s'')}"
        unfolding dom' using p by (auto simp: placed_def js_set_def)
      show "len (results ?s'') \<le> d"
        using p jd by (auto simp: placed_def js_set_def)
      show "dom (elems (results ?s'')) \<subseteq> {..<d}"
        unfolding dom' using p jd by (auto simp: placed_def)
    qed (use p dj infl nf in \<open>auto simp: placed_def\<close>)
    from fetchRemaining_placed[OF this]
    show ?thesis by (simp add: settle_success[where calls = calls, OF True t Inr])
  qed
qed

lemma run_placed: "\<exists>d js. placed calls ids (run calls ids lmt evs) d js"
proof (induction evs rule: rev_induct)
  case Nil
  have "\<exists>d js. placed calls ids (start ids) d js"
    using start_placed[of calls ids] by blast
  from for_loop_placed[OF this] show ?case
    by (simp add: run_def getLeads_def)
next
  case (snoc k evs)
  then show ?case using settle_placed by (fastforce simp: run_def)
qed

lemma placed_fulfilled:
  assumes p: "placed calls ids s d js" and f: "promise s = Fulfilled"
  shows "len (results s) = length ids \<and>
         (\<forall>i<length ids. \<exists>r. elems (results s) i = Some r \<and> calls (ids ! i) i = Inr r)"
proof -
  have d: "d = length ids" and c: "card (dom (elems (results s))) = d"
    using p f by (auto simp: placed_def)
  have sub: "dom (elems (results s)) \<subseteq> {..<d}" using p by (simp add: placed_def)
  have "dom (elems (results s)) = {..<d}"
    using sub c by (intro card_subset_eq) auto
  then have all: "\<forall>i<length ids. i \<in> dom (elems (results s))" using d by auto
  have "{..<d} \<subseteq> {..<len (results s)}"
    using p \<open>dom (elems (results s)) = {..<d}\<close> by (simp add: placed_def)
  then have "d \<le> len (results s)" by (simp add: lessThan_subset_iff)
  moreover have "len (results s) \<le> d" using p by (simp add: placed_def)
  ultimately show ?thesis using all p d by (auto simp: placed_def)
qed


lemma for_loop_split:
  "i \<le> j \<Longrightarrow> j \<le> lmt \<Longrightarrow> for_loop i lmt s = for_loop j lmt (for_loop i j s)"
proof (induction i j s rule: for_loop.induct)
  case (1 i j s)
  show ?case
  proof (cases "i < j")
    case True
    then have "for_loop i lmt s = for_loop (i + 1) lmt (fetchRemaining s)"
      using "1.prems" by (subst for_loop.simps) simp
    also have "\<dots> = for_loop j lmt (for_loop (i + 1) j (fetchRemaining s))"
      using "1.IH"[OF True] True "1.prems" by simp
    also have "for_loop (i + 1) j (fetchRemaining s) = for_loop i j s"
      using True by (subst (2) for_loop.simps) simp
    finally show ?thesis .
  next
    case False
    then have "for_loop i j s = s" "i = j"
      using "1.prems" by (simp_all add: for_loop.simps)
    then show ?thesis by simp
  qed
qed

text \<open>
  C1. Whenever the promise of \<open>getLeads\<close> is fulfilled, after any sequence of
  settlements of the calls in flight, the array it is resolved with has the length of
  the input and holds at every index \<open>i\<close> the value that the call made for the \<open>i\<close>-th
  id resolved with: results are placed by original index, whatever the order of
  completion.
\<close>

theorem results_by_original_index:
  assumes "promise (run calls ids lmt evs) = Fulfilled"
  shows "len (results (run calls ids lmt evs)) = length ids
       \<and> (\<forall>i<length ids. \<exists>r. calls (ids ! i) i = Inr r
              \<and> elems (results (run calls ids lmt evs)) i = Some r)
       \<and> map (map_option Inr) (js_list (results (run calls ids lmt evs)))
           = map (\<lambda>i. Some (calls (ids ! i) i)) [0..<length ids]"
proof -
  obtain d js where p: "placed calls ids (run calls ids lmt evs) d js"
    using run_placed by blast
  have a: "len (results (run calls ids lmt evs)) = length ids"
    and b: "\<forall>i<length ids. \<exists>r. elems (results (run calls ids lmt evs)) i = Some r
              \<and> calls (ids ! i) i = Inr r"
    using placed_fulfilled[OF p assms] by auto
  have "map (map_option Inr) (js_list (results (run calls ids lmt evs)))
           = map (\<lambda>i. Some (calls (ids ! i) i)) [0..<length ids]"
  proof (rule nth_equalityI)
    show "length (map (map_option Inr) (js_list (results (run calls ids lmt evs))))
        = length (map (\<lambda>i. Some (calls (ids ! i) i)) [0..<length ids])"
      by (simp add: js_list_def a)
  next
    fix i
    assume "i < length (map (map_option Inr) (js_list (results (run calls ids lmt evs))))"
    then have i: "i < length ids" by (simp add: js_list_def a)
    with b obtain r where "elems (results (run calls ids lmt evs)) i = Some r"
      "calls (ids ! i) i = Inr r" by blast
    with i show "map (map_option Inr) (js_list (results (run calls ids lmt evs))) ! i
        = map (\<lambda>i. Some (calls (ids ! i) i)) [0..<length ids] ! i"
      by (simp add: js_list_def a)
  qed
  with a b show ?thesis by blast
qed

theorem results_by_original_index_witness:
  "promise (run (\<lambda>ident idx. (Inr (''lead '' @ ident) :: unit + string))
       [''a'', ''b'', ''c'', ''d''] (Some 2) [1, 1, 1, 0]) = Fulfilled
   \<and> len (results (run (\<lambda>ident idx. (Inr (''lead '' @ ident) :: unit + string))
       [''a'', ''b'', ''c'', ''d''] (Some 2) [1, 1, 1, 0])) = 4
   \<and> js_list (results (run (\<lambda>ident idx. (Inr (''lead '' @ ident) :: unit + string))
       [''a'', ''b'', ''c'', ''d''] (Some 2) [1, 1, 1, 0]))
     = [Some ''lead a'', Some ''lead b'', Some ''lead c'', Some ''lead d'']"
proof -
  have f: "promise (run (\<lambda>ident idx. (Inr (''lead '' @ ident) :: unit + string))
       [''a'', ''b'', ''c'', ''d''] (Some 2) [1, 1, 1, 0]) = Fulfilled"
    by code_simp
  have v: "js_list (results (run (\<lambda>ident idx. (Inr (''lead '' @ ident) :: unit + string))
       [''a'', ''b'', ''c'', ''d''] (Some 2) [1, 1, 1, 0]))
     = [Some ''lead a'', Some ''lead b'', Some ''lead c'', Some ''lead d'']"
    by code_simp
  show ?thesis
    using results_by_original_index[OF f] f v by simp
qed

text \<open>
  C2. With a limit of at least one, the number of calls in flight never exceeds the
  limit: not after any number of rounds of the initial loop, and not after any sequence
  of settlements once \<open>getLeads\<close> has returned.
\<close>

theorem in_flight_bounded:
  assumes "1 \<le> param_default lmt 5"
  shows "(\<forall>j. 0 \<le> j \<and> j \<le> param_default lmt 5 \<longrightarrow>
            int (length (inflight (for_loop 0 j (start ids)))) \<le> param_default lmt 5)
       \<and> int (length (inflight (run calls ids lmt evs))) \<le> param_default lmt 5"
proof -
  have "int (length (inflight (for_loop 0 j (start ids) :: ('a, 'b) executor))) \<le> param_default lmt 5"
    if "0 \<le> j" "j \<le> param_default lmt 5" for j
  proof -
    have "bounded j (for_loop 0 j (start ids) :: ('a, 'b) executor)"
      using that by (intro for_loop_bounded) (simp_all add: start_def)
    then show ?thesis using that by (simp add: bounded_def)
  qed
  moreover have "bounded (param_default lmt 5) (run calls ids lmt evs)"
    using assms by (intro run_bounded) simp
  ultimately show ?thesis by (simp add: bounded_def)
qed

theorem in_flight_bounded_witness:
  "(1 :: int) \<le> param_default (Some 2) 5
   \<and> int (length (inflight (run (\<lambda>ident idx. (Inr (''lead '' @ ident) :: unit + string))
       [''a'', ''b'', ''c'', ''d''] (Some 2) [1, 1]))) \<le> param_default (Some 2) 5
   \<and> inflight (run (\<lambda>ident idx. (Inr (''lead '' @ ident) :: unit + string))
       [''a'', ''b'', ''c'', ''d''] (Some 2) [1, 1]) = [(''a'', 0), (''d'', 3)]"
proof -
  have h: "(1 :: int) \<le> param_default (Some 2) 5"
    by (simp add: param_default_def)
  have "inflight (run (\<lambda>ident idx. (Inr (''lead '' @ ident) :: unit + string))
       [''a'', ''b'', ''c'', ''d''] (Some 2) [1, 1]) = [(''a'', 0), (''d'', 3)]"
    by code_simp
  then show ?thesis
    using h in_flight_bounded[OF h, of "[''a'', ''b'', ''c'', ''d'']"
        "\<lambda>ident idx. (Inr (''lead '' @ ident) :: unit + string)" "[1, 1]"]
    by (simp add: param_default_def)
qed

section \<open>Properties of the executor with an abort signal\<close>

lemma settle_signal_out_of_range:
  "\<not> k < length (inflight s) \<Longrightarrow> settle_signal calls s k = s"
  by (simp add: settle_signal_def)

lemma settle_signal_failure:
  "k < length (inflight s) \<Longrightarrow> inflight s ! k = (ident, idx) \<Longrightarrow>
   calls ident idx (controller s) = Inl err \<Longrightarrow>
     settle_signal calls s k =
       reject err (controller_abort
         (s\<lparr>inflight := take k (inflight s) @ drop (Suc k) (inflight s)\<rparr>))"
  by (simp add: settle_signal_def)

lemma settle_signal_success:
  "k < length (inflight s) \<Longrightarrow> inflight s ! k = (ident, idx) \<Longrightarrow>
   calls ident idx (controller s) = Inr res \<Longrightarrow>
     settle_signal calls s k =
       fetchRemaining_signal
         (s\<lparr>inflight := take k (inflight s) @ drop (Suc k) (inflight s),
            results := js_set (results s) idx res, pending := pending s - 1\<rparr>)"
  by (simp add: settle_signal_def)

lemma fetchRemaining_signal_promise:
  "promise s = Rejected e \<Longrightarrow> promise (fetchRemaining_signal s) = Rejected e"
  by (simp add: fetchRemaining_signal_def resolve_def split: prod.splits)

lemma fetchRemaining_signal_controller:
  "controller (fetchRemaining_signal s) = controller s"
  by (simp add: fetchRemaining_signal_def resolve_def split: prod.splits)

lemma fetchRemaining_signal_opts_signal:
  "opts_signal (fetchRemaining_signal s) = opts_signal s"
  by (simp add: fetchRemaining_signal_def resolve_def split: prod.splits)

lemma signal_abort_frame:
  "promise (signal_abort s) = promise s" "remaining (signal_abort s) = remaining s"
  "inflight (signal_abort s) = inflight s" "pending (signal_abort s) = pending s"
  "controller s \<Longrightarrow> controller (signal_abort s)"
  by (simp_all add: signal_abort_def controller_abort_def Let_def split: option.splits)

lemma step_signal_rejected:
  assumes "promise s = Rejected e"
  shows "promise (step_signal calls s ev) = Rejected e"
proof (cases ev)
  case AbortSignal
  then show ?thesis using assms by (simp add: step_signal_def signal_abort_frame)
next
  case (Settle k)
  show ?thesis
  proof (cases "k < length (inflight s)")
    case False
    then show ?thesis using assms Settle by (simp add: step_signal_def settle_signal_out_of_range)
  next
    case True
    obtain ident idx where t: "inflight s ! k = (ident, idx)" by (cases "inflight s ! k")
    show ?thesis
    proof (cases "calls ident idx (controller s)")
      case (Inl err)
      show ?thesis using assms Settle
        by (simp add: step_signal_def settle_signal_failure[where calls = calls, OF True t Inl]
            reject_def controller_abort_def)
    next
      case (Inr res)
      show ?thesis using assms Settle
        by (simp add: step_signal_def settle_signal_success[where calls = calls, OF True t Inr]
            fetchRemaining_signal_promise)
    qed
  qed
qed

lemma step_signal_controller:
  assumes "controller s"
  shows "controller (step_signal calls s ev)"
proof (cases ev)
  case AbortSignal
  then show ?thesis using assms by (simp add: step_signal_def signal_abort_frame)
next
  case (Settle k)
  show ?thesis
  proof (cases "k < length (inflight s)")
    case False
    then show ?thesis using assms Settle by (simp add: step_signal_def settle_signal_out_of_range)
  next
    case True
    obtain ident idx where t: "inflight s ! k = (ident, idx)" by (cases "inflight s ! k")
    show ?thesis
    proof (cases "calls ident idx (controller s)")
      case (Inl err)
      show ?thesis using Settle
        by (simp add: step_signal_def settle_signal_failure[where calls = calls, OF True t Inl]
            reject_def controller_abort_def)
    next
      case (Inr res)
      show ?thesis using assms Settle
        by (simp add: step_signal_def settle_signal_success[where calls = calls, OF True t Inr]
            fetchRemaining_signal_controller)
    qed
  qed
qed

lemma step_signal_no_dispatch:
  assumes "\<forall>ident idx. isl (calls ident idx True)" and "controller s"
  shows "remaining (step_signal calls s ev) = remaining s"
proof (cases ev)
  case AbortSignal
  then show ?thesis by (simp add: step_signal_def signal_abort_frame)
next
  case (Settle k)
  show ?thesis
  proof (cases "k < length (inflight s)")
    case False
    then show ?thesis using Settle by (simp add: step_signal_def settle_signal_out_of_range)
  next
    case True
    obtain ident idx where t: "inflight s ! k = (ident, idx)" by (cases "inflight s ! k")
    from assms obtain err where f: "calls ident idx (controller s) = Inl err"
      by (auto simp: isl_def)
    show ?thesis using Settle
      by (simp add: step_signal_def settle_signal_failure[where calls = calls, OF True t f]
          reject_def controller_abort_def)
  qed
qed

lemma foldl_step_signal_rejected:
  "promise s = Rejected e \<Longrightarrow> promise (foldl (step_signal calls) s evs) = Rejected e"
  by (induction evs arbitrary: s) (simp_all add: step_signal_rejected)

lemma foldl_step_signal_controller:
  "controller s \<Longrightarrow> controller (foldl (step_signal calls) s evs)"
  by (induction evs arbitrary: s) (simp_all add: step_signal_controller)

lemma foldl_step_signal_no_dispatch:
  "\<forall>ident idx. isl (calls ident idx True) \<Longrightarrow> controller s \<Longrightarrow>
     remaining (foldl (step_signal calls) s evs) = remaining s"
proof (induction evs arbitrary: s)
  case Nil
  show ?case by simp
next
  case (Cons ev evs)
  have "remaining (foldl (step_signal calls) (step_signal calls s ev) evs)
      = remaining (step_signal calls s ev)"
    using Cons.prems by (intro Cons.IH) (simp_all add: step_signal_controller)
  then show ?case using Cons.prems by (simp add: step_signal_no_dispatch)
qed

lemma fetchRemaining_signal_quiescent:
  "quiescent s \<Longrightarrow> quiescent (fetchRemaining_signal s)"
  by (auto simp: quiescent_def fetchRemaining_signal_def resolve_def split: prod.splits)

lemma for_loop_signal_quiescent:
  "quiescent s \<Longrightarrow> quiescent (for_loop_signal i lmt s)"
proof (induction i lmt s rule: for_loop_signal.induct)
  case (1 i lmt s)
  show ?case
  proof (cases "i < lmt")
    case True
    then show ?thesis
      using "1.IH"[OF True fetchRemaining_signal_quiescent[OF "1.prems"]]
      by (subst for_loop_signal.simps) simp
  next
    case False
    then show ?thesis using "1.prems" by (subst for_loop_signal.simps) simp
  qed
qed

lemma step_signal_quiescent:
  assumes q: "quiescent s"
  shows "quiescent (step_signal calls s ev)"
proof (cases ev)
  case AbortSignal
  then show ?thesis using q by (simp add: step_signal_def quiescent_def signal_abort_frame)
next
  case (Settle k)
  show ?thesis
  proof (cases "k < length (inflight s)")
    case False
    then show ?thesis using q Settle by (simp add: step_signal_def settle_signal_out_of_range)
  next
    case True
    then have nf: "promise s \<noteq> Fulfilled" using q by (auto simp: quiescent_def)
    obtain ident idx where t: "inflight s ! k = (ident, idx)" by (cases "inflight s ! k")
    have l: "int (length (take k (inflight s) @ drop (Suc k) (inflight s)))
        = int (length (inflight s)) - 1"
      using True by auto
    show ?thesis
    proof (cases "calls ident idx (controller s)")
      case (Inl err)
      show ?thesis using q nf Settle
        by (simp add: step_signal_def settle_signal_failure[where calls = calls, OF True t Inl]
            reject_def controller_abort_def quiescent_def)
    next
      case (Inr res)
      have "quiescent (s\<lparr>inflight := take k (inflight s) @ drop (Suc k) (inflight s),
            results := js_set (results s) idx res, pending := pending s - 1\<rparr>)"
        using q nf l by (simp add: quiescent_def)
      from fetchRemaining_signal_quiescent[OF this] show ?thesis using Settle
        by (simp add: step_signal_def settle_signal_success[where calls = calls, OF True t Inr])
    qed
  qed
qed

lemma run_signal_quiescent: "quiescent (run_signal calls ids opts evs)"
proof (induction evs rule: rev_induct)
  case Nil
  have "quiescent (start_signal ids opts :: ('a, 'b) executor_signal)"
    by (simp add: quiescent_def start_signal_def)
  then show ?case
    by (simp add: run_signal_def getLeads_signal_def for_loop_signal_quiescent)
next
  case (snoc ev evs)
  then show ?case by (simp add: run_signal_def step_signal_quiescent)
qed

lemma run_signal_append:
  "run_signal calls ids opts (evs @ evs')
     = foldl (step_signal calls) (run_signal calls ids opts evs) evs'"
  by (simp add: run_signal_def)

text \<open>
  C3, as amended. Take any state the executor reaches in which the batch has not been
  rejected yet, and let a call in flight reject with \<open>e\<close>: it is the first operation to
  fail. Its handler aborts the controller and rejects the batch with \<open>e\<close> without
  starting anything. Whatever happens afterwards, the controller stays aborted and the
  batch stays rejected with \<open>e\<close>, so no result of a call that was in flight reaches the
  caller, even if the call succeeds. No pending task is started afterwards provided that
  every call whose handler runs once the signal is aborted has rejected.
\<close>

theorem first_failure_aborts_and_rejects:
  assumes "\<forall>e0. promise (run_signal calls ids opts evs) \<noteq> Rejected e0"
    and "k < length (inflight (run_signal calls ids opts evs))"
    and "inflight (run_signal calls ids opts evs) ! k = (ident, idx)"
    and "calls ident idx (controller (run_signal calls ids opts evs)) = Inl e"
  shows "controller (run_signal calls ids opts (evs @ [Settle k]))
       \<and> promise (run_signal calls ids opts (evs @ [Settle k])) = Rejected e
       \<and> remaining (run_signal calls ids opts (evs @ [Settle k]))
           = remaining (run_signal calls ids opts evs)
       \<and> controller (run_signal calls ids opts (evs @ Settle k # evs'))
       \<and> promise (run_signal calls ids opts (evs @ Settle k # evs')) = Rejected e
       \<and> ((\<forall>ident idx. isl (calls ident idx True)) \<longrightarrow>
            remaining (run_signal calls ids opts (evs @ Settle k # evs'))
              = remaining (run_signal calls ids opts evs))"
proof -
  define s where "s = run_signal calls ids opts evs"
  define s1 where "s1 = step_signal calls s (Settle k)"
  have k: "k < length (inflight s)" and t: "inflight s ! k = (ident, idx)"
    and f: "calls ident idx (controller s) = Inl e" and nr: "\<forall>e0. promise s \<noteq> Rejected e0"
    using assms by (simp_all add: s_def)
  have "quiescent s" by (simp add: s_def run_signal_quiescent)
  then have "promise s \<noteq> Fulfilled" using k by (auto simp: quiescent_def)
  then have u: "promise s = Unsettled" using nr by (cases "promise s") auto
  have s1: "s1 = reject e (controller_abort
         (s\<lparr>inflight := take k (inflight s) @ drop (Suc k) (inflight s)\<rparr>))"
    by (simp add: s1_def step_signal_def settle_signal_failure[where calls = calls, OF k t f])
  have c1: "controller s1" and p1: "promise s1 = Rejected e" and r1: "remaining s1 = remaining s"
    using u by (simp_all add: s1 reject_def controller_abort_def)
  have one: "run_signal calls ids opts (evs @ [Settle k]) = s1"
    by (simp add: run_signal_append s_def s1_def)
  have more: "run_signal calls ids opts (evs @ Settle k # evs')
      = foldl (step_signal calls) s1 evs'"
    by (simp add: run_signal_append s_def s1_def)
  have "remaining (foldl (step_signal calls) s1 evs') = remaining s"
    if "\<forall>ident idx. isl (calls ident idx True)"
    using foldl_step_signal_no_dispatch[where calls = calls, OF that c1] r1 by simp
  then show ?thesis
    unfolding one more s_def[symmetric]
    using c1 p1 r1 foldl_step_signal_controller[OF c1]
      foldl_step_signal_rejected[OF p1] by blast
qed

theorem first_failure_aborts_and_rejects_witness:
  "promise (run_signal (\<lambda>ident idx a. if a \<or> ident = ''a'' then Inl ''boom'' else Inr ident)
      [''a'', ''b'', ''c''] (Some \<lparr>leads_limit = Some 2, signal = None\<rparr>) []) = Unsettled
   \<and> inflight (run_signal (\<lambda>ident idx a. if a \<or> ident = ''a'' then Inl ''boom'' else Inr ident)
      [''a'', ''b'', ''c''] (Some \<lparr>leads_limit = Some 2, signal = None\<rparr>) [])
       = [(''a'', 0), (''b'', 1)]
   \<and> remaining (run_signal (\<lambda>ident idx a. if a \<or> ident = ''a'' then Inl ''boom'' else Inr ident)
      [''a'', ''b'', ''c''] (Some \<lparr>leads_limit = Some 2, signal = None\<rparr>) [])
       = [(''c'', 2)]
   \<and> controller (run_signal (\<lambda>ident idx a. if a \<or> ident = ''a'' then Inl ''boom'' else Inr ident)
      [''a'', ''b'', ''c''] (Some \<lparr>leads_limit = Some 2, signal = None\<rparr>) [Settle 0, Settle 0])
   \<and> promise (run_signal (\<lambda>ident idx a. if a \<or> ident = ''a'' then Inl ''boom'' else Inr ident)
      [''a'', ''b'', ''c''] (Some \<lparr>leads_limit = Some 2, signal = None\<rparr>) [Settle 0, Settle 0])
       = Rejected ''boom''
   \<and> remaining (run_signal (\<lambda>ident idx a. if a \<or> ident = ''a'' then Inl ''boom'' else Inr ident)
      [''a'', ''b'', ''c''] (Some \<lparr>leads_limit = Some 2, signal = None\<rparr>) [Settle 0, Settle 0])
       = [(''c'', 2)]"
proof -
  let ?calls = "\<lambda>ident idx a. if a \<or> ident = ''a'' then Inl ''boom'' else (Inr ident :: string + string)"
  let ?opts = "Some \<lparr>leads_limit = Some 2, signal = None\<rparr>"
  have p: "promise (run_signal ?calls [''a'', ''b'', ''c''] ?opts []) = Unsettled"
    by code_simp
  have i: "inflight (run_signal ?calls [''a'', ''b'', ''c''] ?opts []) = [(''a'', 0), (''b'', 1)]"
    by code_simp
  have r: "remaining (run_signal ?calls [''a'', ''b'', ''c''] ?opts []) = [(''c'', 2)]"
    by code_simp
  have c: "controller (run_signal ?calls [''a'', ''b'', ''c''] ?opts []) = False"
    by code_simp
  show ?thesis
    using first_failure_aborts_and_rejects
      [of ?calls "[''a'', ''b'', ''c'']" ?opts "[]" 0 "''a''" 0 "''boom''" "[Settle 0]"]
      p i r c
    by simp
qed

text \<open>
  The claim C3 as stated fails: \<open>fetchRemaining\<close> does not look at the signal. When
  the \<^verbatim>\<open>then\<close> handler of a call runs after the first failure, it starts the next
  pending task, with the aborted signal. Here the call for \<open>a\<close> rejects, then the
  handler of the call for \<open>b\<close>, which resolved, runs: the task \<open>c\<close> leaves the queue
  and is in flight.
\<close>

theorem dispatch_after_first_failure_counterexample:
  "promise (run_signal (\<lambda>ident idx a. if ident = ''a'' then Inl ''boom'' else Inr ident)
      [''a'', ''b'', ''c''] (Some \<lparr>leads_limit = Some 2, signal = None\<rparr>) [Settle 0])
       = Rejected ''boom''
   \<and> controller (run_signal (\<lambda>ident idx a. if ident = ''a'' then Inl ''boom'' else Inr ident)
      [''a'', ''b'', ''c''] (Some \<lparr>leads_limit = Some 2, signal = None\<rparr>) [Settle 0])
   \<and> remaining (run_signal (\<lambda>ident idx a. if ident = ''a'' then Inl ''boom'' else Inr ident)
      [''a'', ''b'', ''c''] (Some \<lparr>leads_limit = Some 2, signal = None\<rparr>) [Settle 0])
       = [(''c'', 2)]
   \<and> inflight (run_signal (\<lambda>ident idx a. if ident = ''a'' then Inl ''boom'' else Inr ident)
      [''a'', ''b'', ''c''] (Some \<lparr>leads_limit = Some 2, signal = None\<rparr>) [Settle 0])
       = [(''b'', 1)]
   \<and> remaining (run_signal (\<lambda>ident idx a. if ident = ''a'' then Inl ''boom'' else Inr ident)
      [''a'', ''b'', ''c''] (Some \<lparr>leads_limit = Some 2, signal = None\<rparr>) [Settle 0, Settle 0])
       = []
   \<and> inflight (run_signal (\<lambda>ident idx a. if ident = ''a'' then Inl ''boom'' else Inr ident)
      [''a'', ''b'', ''c''] (Some \<lparr>leads_limit = Some 2, signal = None\<rparr>) [Settle 0, Settle 0])
       = [(''c'', 2)]"
proof -
  let ?calls = "\<lambda>ident idx a. if ident = ''a'' then Inl ''boom'' else (Inr ident :: string + string)"
  let ?opts = "Some \<lparr>leads_limit = Some 2, signal = None\<rparr>"
  have "promise (run_signal ?calls [''a'', ''b'', ''c''] ?opts [Settle 0]) = Rejected ''boom''"
    by code_simp
  moreover have "controller (run_signal ?calls [''a'', ''b'', ''c''] ?opts [Settle 0])"
    by code_simp
  moreover have "remaining (run_signal ?calls [''a'', ''b'', ''c''] ?opts [Settle 0]) = [(''c'', 2)]"
    by code_simp
  moreover have "inflight (run_signal ?calls [''a'', ''b'', ''c''] ?opts [Settle 0]) = [(''b'', 1)]"
    by code_simp
  moreover have "remaining (run_signal ?calls [''a'', ''b'', ''c''] ?opts [Settle 0, Settle 0]) = []"
    by code_simp
  moreover have "inflight (run_signal ?calls [''a'', ''b'', ''c''] ?opts [Settle 0, Settle 0])
      = [(''c'', 2)]"
    by code_simp
  ultimately show ?thesis by simp
qed

lemma fetchRemaining_signal_linked: "linked s \<Longrightarrow> linked (fetchRemaining_signal s)"
  by (simp add: linked_def fetchRemaining_signal_opts_signal fetchRemaining_signal_controller
      split: option.splits)

lemma for_loop_signal_linked: "linked s \<Longrightarrow> linked (for_loop_signal i lmt s)"
proof (induction i lmt s rule: for_loop_signal.induct)
  case (1 i lmt s)
  show ?case
  proof (cases "i < lmt")
    case True
    then show ?thesis
      using "1.IH"[OF True fetchRemaining_signal_linked[OF "1.prems"]]
      by (subst for_loop_signal.simps) simp
  next
    case False
    then show ?thesis using "1.prems" by (subst for_loop_signal.simps) simp
  qed
qed

lemma settle_signal_opts_signal: "opts_signal (settle_signal calls s k) = opts_signal s"
  by (simp add: settle_signal_def Let_def reject_def controller_abort_def
      fetchRemaining_signal_opts_signal split: prod.splits sum.splits)

lemma step_signal_linked:
  assumes "linked s"
  shows "linked (step_signal calls s ev)"
proof (cases ev)
  case AbortSignal
  then show ?thesis using assms
    by (auto simp: step_signal_def linked_def signal_abort_def controller_abort_def Let_def
        split: option.splits)
next
  case (Settle k)
  have "controller s \<longrightarrow> controller (settle_signal calls s k)"
    using step_signal_controller[of s calls "Settle k"] by (simp add: step_signal_def)
  then show ?thesis using assms Settle
    by (auto simp: step_signal_def linked_def settle_signal_opts_signal split: option.splits)
qed

lemma run_signal_linked:
  "linked (run_signal calls ids (Some \<lparr>leads_limit = l, signal = Some False\<rparr>) evs)"
proof (induction evs rule: rev_induct)
  case Nil
  have "linked (start_signal ids (Some \<lparr>leads_limit = l, signal = Some False\<rparr>)
      :: ('a, 'b) executor_signal)"
    by (simp add: linked_def start_signal_def addEventListener_abort_def)
  then show ?case
    by (simp add: run_signal_def getLeads_signal_def for_loop_signal_linked)
next
  case (snoc ev evs)
  then show ?case by (simp add: run_signal_def step_signal_linked)
qed

text \<open>
  Linking a signal that is not aborted yet works: when the caller's signal is not aborted at the time
  \<open>getLeads\<close> is called, aborting it at any later time aborts the controller, and the
  controller stays aborted.
\<close>

lemma signal_abort_reaches_controller:
  "controller (run_signal calls ids (Some \<lparr>leads_limit = l, signal = Some False\<rparr>)
     (evs @ AbortSignal # evs'))"
proof -
  let ?s = "run_signal calls ids (Some \<lparr>leads_limit = l, signal = Some False\<rparr>) evs"
  have "linked ?s" by (rule run_signal_linked)
  then have "controller (step_signal calls ?s AbortSignal)"
    by (auto simp: step_signal_def linked_def signal_abort_def controller_abort_def Let_def
        split: option.splits)
  then show ?thesis
    by (simp add: run_signal_append foldl_step_signal_controller)
qed

text \<open>
  C8 at a signal that is already aborted when \<open>getLeads\<close> is called: the listener is
  registered on it but never called, so the controller is not aborted, the first
  tasks are started with a signal that is not aborted, and a later call of abort on the
  caller's signal changes nothing.
\<close>

theorem aborted_signal_is_not_linked:
  "opts_signal (getLeads_signal [''a'', ''b''] (Some \<lparr>leads_limit = None, signal = Some True\<rparr>)
      :: (string, string) executor_signal) = Some \<lparr>aborted = True, listeners = 1\<rparr>
   \<and> \<not> controller (getLeads_signal [''a'', ''b''] (Some \<lparr>leads_limit = None, signal = Some True\<rparr>)
      :: (string, string) executor_signal)
   \<and> inflight (getLeads_signal [''a'', ''b''] (Some \<lparr>leads_limit = None, signal = Some True\<rparr>)
      :: (string, string) executor_signal) = [(''a'', 0), (''b'', 1)]
   \<and> \<not> controller (run_signal (\<lambda>ident idx a. if a then Inl ''AbortError'' else Inr ident)
        [''a'', ''b''] (Some \<lparr>leads_limit = None, signal = Some True\<rparr>) [AbortSignal])
   \<and> promise (run_signal (\<lambda>ident idx a. if a then Inl ''AbortError'' else Inr ident)
        [''a'', ''b''] (Some \<lparr>leads_limit = None, signal = Some True\<rparr>)
        [AbortSignal, Settle 0, Settle 0]) = Fulfilled"
proof -
  let ?opts = "Some \<lparr>leads_limit = None, signal = Some True\<rparr>"
  let ?calls = "\<lambda>ident idx a. if a then Inl ''AbortError'' else (Inr ident :: string + string)"
  have "opts_signal (getLeads_signal [''a'', ''b''] ?opts :: (string, string) executor_signal)
      = Some \<lparr>aborted = True, listeners = 1\<rparr>"
    by code_simp
  moreover have "\<not> controller (getLeads_signal [''a'', ''b''] ?opts :: (string, string) executor_signal)"
    by code_simp
  moreover have "inflight (getLeads_signal [''a'', ''b''] ?opts :: (string, string) executor_signal)
      = [(''a'', 0), (''b'', 1)]"
    by code_simp
  moreover have "\<not> controller (run_signal ?calls [''a'', ''b''] ?opts [AbortSignal])"
    by code_simp
  moreover have "promise (run_signal ?calls [''a'', ''b''] ?opts [AbortSignal, Settle 0, Settle 0])
      = Fulfilled"
    by code_simp
  ultimately show ?thesis by simp
qed

end
